theory Spec2Isabelle
  imports Main "HOL-Library.Word"
begin

section \<open>The presence writer of \<^verbatim>\<open>presence_writer.cpp\<close>\<close>

text \<open>
  The writer is a process-wide object that holds the registered presence services in a
  map keyed by the user id, a countdown in minutes, the flag of the running
  writer and the atomic flag of the heartbeat call in progress.  Everything the code does
  to the outside (log lines, calls on a presence service, the creation and the stop of the
  timer) is recorded, in order, in the list \<open>effects\<close>.

  The embedding follows the build without \<^verbatim>\<open>__cplusplus_winrt\<close>: the timer is the
  loop of \<^verbatim>\<open>start_timer\<close>, stopped through \<^verbatim>\<open>m_timerComplete\<close>.  The other build cancels
  its thread pool timer at the same place of \<^verbatim>\<open>stop_writer\<close>.
\<close>

subsection \<open>Data\<close>

type_synonym string_t = string

text \<open>
  A \<^verbatim>\<open>std::shared_ptr<presence_service_impl>\<close>: the object is opaque here, apart from the
  user id it is read for.  \<^verbatim>\<open>start_writer\<close> dereferences the pointer before it stores it,
  so a stored pointer is never null, and the test \<^verbatim>\<open>presenceService != nullptr\<close> of the
  heartbeat loop always succeeds; the type has no null value.
\<close>

record presence_service_impl =
  xbox_user_id :: string_t
  address :: nat

text \<open>
  \<^verbatim>\<open>xbox_live_result<uint32_t>\<close>: \<open>err\<close> is the value of the error code (zero is
  success), \<open>payload\<close> the interval in minutes that the service answers.
\<close>

record xbox_live_result =
  err :: int
  err_message :: string
  payload :: "32 word"

datatype call_outcome = Returns | Throws

datatype effect =
    LOG_INFO string
  | LOG_ERROR string
  | LOGS_ERROR string int string
  | Set_presence presence_service_impl bool
  | Set_presence_helper presence_service_impl bool
  | Create_timer_task
  | Stop_timer

text \<open>
  Modelled from the spec: the type of the member \<^verbatim>\<open>m_heartBeatDelayInMins\<close>.  The class
  is declared in a header that is not among the source files; the spec gives the countdown
  as a signed integer, so the field is an integer and holds every \<^verbatim>\<open>uint32_t\<close> that the
  continuation assigns to it.  The other members \<open>m_...\<close> have the types that the code
  uses them at.  The writer is the process-wide singleton and outlives the tasks it
  creates, so the weak pointers that the tasks lock are never empty.

  The remaining fields describe the work that the code has handed to the task library:
  \<open>timer_tasks\<close> counts the tasks created by \<^verbatim>\<open>start_writer\<close> that have not yet entered
  \<^verbatim>\<open>start_timer\<close>, \<open>timer_loops\<close> the tasks that sleep in its loop, \<open>write_tasks\<close> lists
  every write task created so far with its result once it has completed (a task is named
  by its position), \<open>joins\<close> lists the \<^verbatim>\<open>when_all(...).then(...)\<close> registrations that still
  wait for a task, each as the list of the tasks it waits for, and \<open>scheduled\<close> holds the
  continuations whose tasks have all completed and which have not run yet, each as the vector
  of results it will receive.
\<close>

record presence_writer =
  m_writerInProgress :: bool
  m_heartBeatDelayInMins :: int
  m_isCallInProgress :: bool
  m_presenceServices :: "(string_t \<times> presence_service_impl) list"
  m_timerComplete :: bool
  timer_tasks :: nat
  timer_loops :: nat
  write_tasks :: "(presence_service_impl \<times> xbox_live_result option) list"
  joins :: "nat list list"
  scheduled :: "xbox_live_result list list"
  effects :: "effect list"

definition emit :: "effect \<Rightarrow> presence_writer \<Rightarrow> presence_writer" where
  "emit e s = s\<lparr>effects := effects s @ [e]\<rparr>"

text \<open>
  The constructor initialises three members; \<^verbatim>\<open>m_timerComplete\<close> is not among them, so
  its first value is a parameter.
\<close>

definition new_presence_writer :: "bool \<Rightarrow> presence_writer" where
  "new_presence_writer timerComplete =
     \<lparr>m_writerInProgress = False, m_heartBeatDelayInMins = 0, m_isCallInProgress = False,
      m_presenceServices = [], m_timerComplete = timerComplete,
      timer_tasks = 0, timer_loops = 0, write_tasks = [], joins = [], scheduled = [],
      effects = []\<rparr>"

subsection \<open>The map of the services\<close>

text \<open>
  \<^verbatim>\<open>m_presenceServices\<close> maps a user id to one service; the code looks a key up, inserts
  a key that is absent, erases the entry it has found, asks whether the map is empty and
  iterates over it.  The map is an association list in iteration order.  Where a new entry
  appears in that order is up to the container; here it goes to the end, and an erased
  entry leaves the others in place.
\<close>

definition umap_find :: "string_t \<Rightarrow> (string_t \<times> 'v) list \<Rightarrow> 'v option" where
  "umap_find k m = map_of m k"

definition umap_insert :: "string_t \<times> 'v \<Rightarrow> (string_t \<times> 'v) list \<Rightarrow> (string_t \<times> 'v) list" where
  "umap_insert p m = (if umap_find (fst p) m = None then m @ [p] else m)"

fun umap_erase :: "string_t \<Rightarrow> (string_t \<times> 'v) list \<Rightarrow> (string_t \<times> 'v) list" where
  "umap_erase k [] = []"
| "umap_erase k (p # m) = (if fst p = k then m else p # umap_erase k m)"

subsection \<open>Registration and removal\<close>

definition create_timer_task :: "presence_writer \<Rightarrow> presence_writer" where
  "create_timer_task s = (emit Create_timer_task s)\<lparr>timer_tasks := timer_tasks s + 1\<rparr>"

definition start_writer :: "presence_service_impl \<Rightarrow> presence_writer \<Rightarrow> presence_writer" where
  "start_writer presenceServiceImpl s =
     (let startWriter = \<not> m_writerInProgress s;
          s1 = (if \<not> m_writerInProgress s then s\<lparr>m_writerInProgress := True\<rparr> else s);
          ident = xbox_user_id presenceServiceImpl
      in if umap_find ident (m_presenceServices s1) = None then
           let s2 = emit (LOG_INFO ''Add new presence service into writer'') s1;
               s3 = s2\<lparr>m_presenceServices :=
                         umap_insert (ident, presenceServiceImpl) (m_presenceServices s2)\<rparr>
           in if startWriter then create_timer_task s3 else s3
         else emit (LOG_INFO ''Presence service for the user already exsit, return'') s1)"

text \<open>
  \<^verbatim>\<open>set_inactive_in_title\<close>: the call of \<^verbatim>\<open>set_presence(false)\<close> either returns (what it
  returns is dropped by the code) or throws, and then the handler logs.
\<close>

definition set_inactive_in_title ::
  "presence_service_impl \<Rightarrow> call_outcome \<Rightarrow> presence_writer \<Rightarrow> presence_writer" where
  "set_inactive_in_title presenceServiceImpl outcome s =
     (let s1 = emit (Set_presence presenceServiceImpl False) s
      in case outcome of
           Returns \<Rightarrow> s1
         | Throws \<Rightarrow> emit (LOG_ERROR ''Set presence inactive fail'') s1)"

definition erase_service :: "string_t \<Rightarrow> presence_writer \<Rightarrow> presence_writer" where
  "erase_service k s = s\<lparr>m_presenceServices := umap_erase k (m_presenceServices s)\<rparr>"

definition stop_writer :: "string_t \<Rightarrow> call_outcome \<Rightarrow> presence_writer \<Rightarrow> presence_writer" where
  "stop_writer xboxLiveUserId outcome s =
     (if m_writerInProgress s then
        let s1 = (case umap_find xboxLiveUserId (m_presenceServices s) of
                    Some presenceService \<Rightarrow>
                      erase_service xboxLiveUserId (set_inactive_in_title presenceService outcome s)
                  | None \<Rightarrow> s);
            s2 = (if m_presenceServices s1 = []
                  then s1\<lparr>m_writerInProgress := False, m_heartBeatDelayInMins := 0\<rparr>
                  else s1)
        in (emit Stop_timer s2)\<lparr>m_timerComplete := True\<rparr>
      else s)"

subsection \<open>The heartbeat\<close>

text \<open>
  The loop of \<^verbatim>\<open>set_active_in_title\<close>.  Each round creates the write task of one
  service, appends it to \<^verbatim>\<open>writeTasks\<close> and, still inside the round, registers a
  continuation on \<^verbatim>\<open>when_all\<close> of the tasks collected so far.
\<close>

fun write_loop ::
  "(string_t \<times> presence_service_impl) list \<Rightarrow> nat list \<Rightarrow> presence_writer \<Rightarrow> presence_writer" where
  "write_loop [] writeTasks s = s"
| "write_loop (presencePair # rest) writeTasks s =
     (let presenceService = snd presencePair;
          task = length (write_tasks s);
          s1 = (emit (Set_presence_helper presenceService True) s)
                 \<lparr>write_tasks := write_tasks s @ [(presenceService, None)]\<rparr>;
          writeTasks' = writeTasks @ [task];
          s2 = s1\<lparr>joins := joins s1 @ [writeTasks']\<rparr>
      in write_loop rest writeTasks' s2)"

definition set_active_in_title :: "presence_writer \<Rightarrow> presence_writer" where
  "set_active_in_title s =
     (if \<not> m_isCallInProgress s then
        write_loop (m_presenceServices s) []
          (emit (LOG_INFO ''Start presence writing.'') (s\<lparr>m_isCallInProgress := True\<rparr>))
      else emit (LOG_INFO ''Writting in progress, skip presence writing.'') s)"

definition handle_timer_trigger :: "presence_writer \<Rightarrow> presence_writer" where
  "handle_timer_trigger s =
     (let s1 = emit (LOG_INFO ''Start presence writer timer trigger'') s;
          s2 = s1\<lparr>m_heartBeatDelayInMins := m_heartBeatDelayInMins s1 - 1\<rparr>
      in if m_heartBeatDelayInMins s2 > 0 then s2 else set_active_in_title s2)"

text \<open>
  The continuation registered in the loop.  It receives the results of the tasks that its
  \<^verbatim>\<open>when_all\<close> waited for, clears the flag, logs, and then reads the last result.  The
  three statements are kept apart so that the state between them can be named.  The
  constant \<^verbatim>\<open>s_defaultHeartBeatDelayInMins\<close> is declared in the missing header and is the
  parameter \<open>defaultDelay\<close>.  On an empty vector \<^verbatim>\<open>results.end() - 1\<close> is undefined: the
  model has no next state there.
\<close>

definition continuation_store :: "presence_writer \<Rightarrow> presence_writer" where
  "continuation_store s = s\<lparr>m_isCallInProgress := False\<rparr>"

definition continuation_log :: "presence_writer \<Rightarrow> presence_writer" where
  "continuation_log s = emit (LOG_INFO ''Presence writing finish.'') s"

definition continuation_delay ::
  "int \<Rightarrow> xbox_live_result \<Rightarrow> presence_writer \<Rightarrow> presence_writer" where
  "continuation_delay defaultDelay heartBeat s =
     (if err heartBeat = 0 then s\<lparr>m_heartBeatDelayInMins := uint (payload heartBeat)\<rparr>
      else (emit (LOGS_ERROR
                    ''Error detected on presence writing, using default interval for next write:''
                    (err heartBeat) (err_message heartBeat)) s)
             \<lparr>m_heartBeatDelayInMins := defaultDelay\<rparr>)"

definition continuation ::
  "int \<Rightarrow> xbox_live_result list \<Rightarrow> presence_writer \<Rightarrow> presence_writer option" where
  "continuation defaultDelay results s =
     (if results = [] then None
      else Some (continuation_delay defaultDelay (last results)
                   (continuation_log (continuation_store s))))"

text \<open>The states after each of the three statements, for a vector that is not empty.\<close>

definition continuation_states ::
  "int \<Rightarrow> xbox_live_result list \<Rightarrow> presence_writer \<Rightarrow> presence_writer list" where
  "continuation_states defaultDelay results s =
     [continuation_store s,
      continuation_log (continuation_store s),
      continuation_delay defaultDelay (last results) (continuation_log (continuation_store s))]"

text \<open>
  A write task completes with a result.  Every registered \<^verbatim>\<open>when_all\<close> whose tasks have
  now all completed is complete itself: its continuation is scheduled with the results of
  its tasks, in the order of the tasks.  A scheduled continuation runs later, as an event
  of its own.  The code fixes no order between the continuations that are scheduled, nor
  between them and anything else the writer does: each is a task of its own, and none of
  them takes the lock.  A completion of a task that does not exist or has completed
  before changes nothing, and so does the run of a continuation that is not scheduled.
\<close>

definition task_pending :: "presence_writer \<Rightarrow> nat \<Rightarrow> bool" where
  "task_pending s t = (t < length (write_tasks s) \<and> snd (write_tasks s ! t) = None)"

definition task_done :: "presence_writer \<Rightarrow> nat \<Rightarrow> bool" where
  "task_done s t = (t < length (write_tasks s) \<and> snd (write_tasks s ! t) \<noteq> None)"

definition join_ready :: "presence_writer \<Rightarrow> nat list \<Rightarrow> bool" where
  "join_ready s j = list_all (task_done s) j"

text \<open>The result of a task; it is read only for the tasks of a ready \<^verbatim>\<open>when_all\<close>.\<close>

definition task_result :: "presence_writer \<Rightarrow> nat \<Rightarrow> xbox_live_result" where
  "task_result s t = the (snd (write_tasks s ! t))"

definition set_result :: "nat \<Rightarrow> xbox_live_result \<Rightarrow> presence_writer \<Rightarrow> presence_writer" where
  "set_result t r s = s\<lparr>write_tasks := (write_tasks s)[t := (fst (write_tasks s ! t), Some r)]\<rparr>"

definition write_completes ::
  "nat \<Rightarrow> xbox_live_result \<Rightarrow> presence_writer \<Rightarrow> presence_writer" where
  "write_completes t r s =
     (if task_pending s t then
        let s1 = set_result t r s;
            ready = filter (join_ready s1) (joins s1)
        in s1\<lparr>joins := filter (\<lambda>j. \<not> join_ready s1 j) (joins s1),
               scheduled := scheduled s1 @ map (map (task_result s1)) ready\<rparr>
      else s)"

definition continuation_runs ::
  "int \<Rightarrow> nat \<Rightarrow> presence_writer \<Rightarrow> presence_writer option" where
  "continuation_runs defaultDelay k s =
     (if k < length (scheduled s) then
        continuation defaultDelay (scheduled s ! k)
          (s\<lparr>scheduled := take k (scheduled s) @ drop (Suc k) (scheduled s)\<rparr>)
      else Some s)"

subsection \<open>The timer task\<close>

text \<open>
  \<^verbatim>\<open>start_writer\<close> only creates the task that will call \<^verbatim>\<open>start_timer\<close>; the task begins
  later.  On entry \<^verbatim>\<open>start_timer\<close> clears \<^verbatim>\<open>m_timerComplete\<close>, passes the first test of
  its loop and sleeps.  When a sleep ends the loop either leaves (the flag is set) or calls
  \<^verbatim>\<open>handle_timer_trigger\<close> and sleeps again.
\<close>

definition timer_task_begins :: "presence_writer \<Rightarrow> presence_writer" where
  "timer_task_begins s =
     (if 0 < timer_tasks s
      then s\<lparr>timer_tasks := timer_tasks s - 1, m_timerComplete := False,
             timer_loops := timer_loops s + 1\<rparr>
      else s)"

definition timer_wakes :: "presence_writer \<Rightarrow> presence_writer" where
  "timer_wakes s =
     (if 0 < timer_loops s then
        (if m_timerComplete s then s\<lparr>timer_loops := timer_loops s - 1\<rparr>
         else handle_timer_trigger s)
      else s)"

subsection \<open>Runs\<close>

datatype event =
    Start_writer presence_service_impl
  | Stop_writer string_t call_outcome
  | Timer_task_begins
  | Timer_wakes
  | Write_completes nat xbox_live_result
  | Continuation_runs nat

fun step :: "int \<Rightarrow> event \<Rightarrow> presence_writer \<Rightarrow> presence_writer option" where
  "step defaultDelay (Start_writer h) s = Some (start_writer h s)"
| "step defaultDelay (Stop_writer k outcome) s = Some (stop_writer k outcome s)"
| "step defaultDelay Timer_task_begins s = Some (timer_task_begins s)"
| "step defaultDelay Timer_wakes s = Some (timer_wakes s)"
| "step defaultDelay (Write_completes t r) s = Some (write_completes t r s)"
| "step defaultDelay (Continuation_runs k) s = continuation_runs defaultDelay k s"

fun run :: "int \<Rightarrow> event list \<Rightarrow> presence_writer \<Rightarrow> presence_writer option" where
  "run defaultDelay [] s = Some s"
| "run defaultDelay (e # es) s =
     (case step defaultDelay e s of None \<Rightarrow> None | Some s' \<Rightarrow> run defaultDelay es s')"

text \<open>
  How often \<^verbatim>\<open>set_active_in_title\<close> has been entered, read off the log: every call
  writes exactly one of its two lines, and nothing else writes them.
\<close>

definition flush_line :: "effect \<Rightarrow> bool" where
  "flush_line e = (e = LOG_INFO ''Start presence writing.''
                 \<or> e = LOG_INFO ''Writting in progress, skip presence writing.'')"

definition flush_calls :: "presence_writer \<Rightarrow> nat" where
  "flush_calls s = length (filter flush_line (effects s))"

subsection \<open>Observations\<close>

text \<open>The writer runs exactly when a service is registered.\<close>

definition running_iff_registered :: "presence_writer \<Rightarrow> bool" where
  "running_iff_registered s = (m_writerInProgress s = (m_presenceServices s \<noteq> []))"

text \<open>The events that register and remove a user.\<close>

fun lifecycle_event :: "event \<Rightarrow> bool" where
  "lifecycle_event (Start_writer h) = True"
| "lifecycle_event (Stop_writer k outcome) = True"
| "lifecycle_event e = False"

text \<open>The number of entries that the map holds for a user.\<close>

definition entries :: "string_t \<Rightarrow> (string_t \<times> 'v) list \<Rightarrow> nat" where
  "entries k m = length (filter (\<lambda>p. fst p = k) m)"

text \<open>The calls on a presence service: the write of a removal and the heartbeat write.\<close>

fun presence_call :: "effect \<Rightarrow> bool" where
  "presence_call (Set_presence h active) = True"
| "presence_call (Set_presence_helper h active) = True"
| "presence_call e = False"

definition presence_calls :: "presence_writer \<Rightarrow> effect list" where
  "presence_calls s = filter presence_call (effects s)"

text \<open>
  The reading of the guard that is compared with the code below: in each state that the
  continuation passes through, either the flag is still set or the countdown already has
  the value that the continuation ends with.
\<close>

definition flag_cleared_after_delay ::
  "int \<Rightarrow> xbox_live_result list \<Rightarrow> presence_writer \<Rightarrow> bool" where
  "flag_cleared_after_delay defaultDelay results s =
     list_all
       (\<lambda>s'. m_isCallInProgress s'
             \<or> m_heartBeatDelayInMins s'
                 = m_heartBeatDelayInMins (last (continuation_states defaultDelay results s)))
       (continuation_states defaultDelay results s)"

text \<open>How often the timer has been created and stopped.\<close>

definition timer_starts :: "presence_writer \<Rightarrow> nat" where
  "timer_starts s = length (filter (\<lambda>e. e = Create_timer_task) (effects s))"

definition timer_stops :: "presence_writer \<Rightarrow> nat" where
  "timer_stops s = length (filter (\<lambda>e. e = Stop_timer) (effects s))"

text \<open>
  The write tasks that have not completed, and how often a heartbeat has begun (the line
  that \<^verbatim>\<open>set_active_in_title\<close> logs after it has taken the flag).
\<close>

definition outstanding :: "presence_writer \<Rightarrow> nat list" where
  "outstanding s = filter (\<lambda>t. snd (write_tasks s ! t) = None) [0..<length (write_tasks s)]"

definition heartbeats_begun :: "presence_writer \<Rightarrow> nat" where
  "heartbeats_begun s
     = length (filter (\<lambda>e. e = LOG_INFO ''Start presence writing.'') (effects s))"

text \<open>
  Every registered \<^verbatim>\<open>when_all\<close> waits for tasks that exist, at least one of them, and not
  all of them have completed: it leaves the list as soon as the last of its tasks
  completes.  Every scheduled continuation has at least one result.
\<close>

definition joins_waiting :: "presence_writer \<Rightarrow> bool" where
  "joins_waiting s =
     list_all (\<lambda>j. j \<noteq> [] \<and> list_all (\<lambda>t. t < length (write_tasks s)) j \<and> \<not> join_ready s j)
       (joins s)"

definition scheduled_results :: "presence_writer \<Rightarrow> bool" where
  "scheduled_results s = list_all (\<lambda>results. results \<noteq> []) (scheduled s)"

section \<open>Properties\<close>

lemma write_loop_effects:
  "effects (write_loop ps wt s) = effects s @ map (\<lambda>p. Set_presence_helper (snd p) True) ps"
  by (induction ps arbitrary: wt s) (simp_all add: emit_def Let_def)

lemma write_loop_members:
  "m_heartBeatDelayInMins (write_loop ps wt s) = m_heartBeatDelayInMins s"
  "m_isCallInProgress (write_loop ps wt s) = m_isCallInProgress s"
  "m_writerInProgress (write_loop ps wt s) = m_writerInProgress s"
  "m_presenceServices (write_loop ps wt s) = m_presenceServices s"
  "m_timerComplete (write_loop ps wt s) = m_timerComplete s"
  "timer_tasks (write_loop ps wt s) = timer_tasks s"
  "timer_loops (write_loop ps wt s) = timer_loops s"
  by (induction ps arbitrary: wt s) (simp_all add: emit_def Let_def)

lemma flush_calls_set_active_in_title:
  "flush_calls (set_active_in_title s) = flush_calls s + 1"
  by (simp add: set_active_in_title_def flush_calls_def write_loop_effects emit_def
      flush_line_def)

lemma set_active_in_title_delay:
  "m_heartBeatDelayInMins (set_active_in_title s) = m_heartBeatDelayInMins s"
  by (simp add: set_active_in_title_def write_loop_members emit_def)

text \<open>
  C8. A tick of the timer first lowers the countdown by one.  The heartbeat call
  \<^verbatim>\<open>set_active_in_title\<close> is entered, on the state with the lowered countdown, exactly
  when the lowered countdown is zero or less; when it is still positive the tick changes
  the countdown (and writes its log line) and nothing else.
\<close>

theorem tick_decrements_then_flushes:
  "m_heartBeatDelayInMins (handle_timer_trigger s) = m_heartBeatDelayInMins s - 1
   \<and> flush_calls (handle_timer_trigger s)
       = flush_calls s + (if m_heartBeatDelayInMins s - 1 \<le> 0 then 1 else 0)
   \<and> (m_heartBeatDelayInMins s - 1 \<le> 0 \<longrightarrow>
        handle_timer_trigger s =
          set_active_in_title
            ((emit (LOG_INFO ''Start presence writer timer trigger'') s)
               \<lparr>m_heartBeatDelayInMins := m_heartBeatDelayInMins s - 1\<rparr>))
   \<and> (0 < m_heartBeatDelayInMins s - 1 \<longrightarrow>
        handle_timer_trigger s =
          s\<lparr>m_heartBeatDelayInMins := m_heartBeatDelayInMins s - 1,
            effects := effects s @ [LOG_INFO ''Start presence writer timer trigger'']\<rparr>)"
proof -
  define s2 where
    "s2 = (emit (LOG_INFO ''Start presence writer timer trigger'') s)
            \<lparr>m_heartBeatDelayInMins := m_heartBeatDelayInMins s - 1\<rparr>"
  have tick: "handle_timer_trigger s =
      (if 0 < m_heartBeatDelayInMins s - 1 then s2 else set_active_in_title s2)"
    by (simp add: handle_timer_trigger_def Let_def s2_def emit_def)
  have delay: "m_heartBeatDelayInMins s2 = m_heartBeatDelayInMins s - 1"
    by (simp add: s2_def emit_def)
  have calls: "flush_calls s2 = flush_calls s"
    by (simp add: s2_def emit_def flush_calls_def flush_line_def)
  have plain: "s2 = s\<lparr>m_heartBeatDelayInMins := m_heartBeatDelayInMins s - 1,
      effects := effects s @ [LOG_INFO ''Start presence writer timer trigger'']\<rparr>"
    by (simp add: s2_def emit_def)
  show ?thesis
    unfolding tick s2_def [symmetric]
    using delay calls plain
    by (simp add: set_active_in_title_delay flush_calls_set_active_in_title)
qed

theorem tick_decrements_then_flushes_witness:
  "0 < m_heartBeatDelayInMins ((new_presence_writer False)\<lparr>m_heartBeatDelayInMins := 3\<rparr>) - 1
   \<and> handle_timer_trigger ((new_presence_writer False)\<lparr>m_heartBeatDelayInMins := 3\<rparr>)
       = (new_presence_writer False)
           \<lparr>m_heartBeatDelayInMins := 2,
            effects := [LOG_INFO ''Start presence writer timer trigger'']\<rparr>
   \<and> m_heartBeatDelayInMins (new_presence_writer False) - 1 \<le> 0
   \<and> m_heartBeatDelayInMins (handle_timer_trigger (new_presence_writer False)) = - 1
   \<and> flush_calls (handle_timer_trigger (new_presence_writer False)) = 1"
proof -
  let ?s = "(new_presence_writer False)\<lparr>m_heartBeatDelayInMins := 3\<rparr>"
  have pos: "m_heartBeatDelayInMins ?s = 3" "effects ?s = []"
    by (simp_all add: new_presence_writer_def)
  have zero: "m_heartBeatDelayInMins (new_presence_writer False) = 0"
    "flush_calls (new_presence_writer False) = 0"
    by (simp_all add: new_presence_writer_def flush_calls_def)
  from tick_decrements_then_flushes [of ?s, THEN conjunct2, THEN conjunct2, THEN conjunct2] pos
  have "handle_timer_trigger ?s = (new_presence_writer False)
           \<lparr>m_heartBeatDelayInMins := 2,
            effects := [LOG_INFO ''Start presence writer timer trigger'']\<rparr>"
    by simp
  moreover from tick_decrements_then_flushes [of "new_presence_writer False", THEN conjunct1] zero
  have "m_heartBeatDelayInMins (handle_timer_trigger (new_presence_writer False)) = - 1"
    by simp
  moreover
  from tick_decrements_then_flushes [of "new_presence_writer False", THEN conjunct2, THEN conjunct1]
    zero
  have "flush_calls (handle_timer_trigger (new_presence_writer False)) = 1"
    by simp
  ultimately show ?thesis using pos zero by simp
qed

subsection \<open>The writer runs exactly while a user is registered\<close>

lemma umap_find_None: "(umap_find k m = None) = (k \<notin> fst ` set m)"
  by (simp add: umap_find_def map_of_eq_None_iff)

lemma umap_insert_not_empty: "umap_insert p m \<noteq> []"
  by (auto simp add: umap_insert_def umap_find_def)

lemma umap_find_insert: "umap_find k (umap_insert (k, v) m) \<noteq> None"
  by (auto simp add: umap_insert_def umap_find_def map_add_def)

lemma start_writer_running: "m_writerInProgress (start_writer h s)"
  by (simp add: start_writer_def Let_def emit_def create_timer_task_def)

lemma start_writer_registered:
  "umap_find (xbox_user_id h) (m_presenceServices (start_writer h s)) \<noteq> None"
  using umap_find_insert [of "xbox_user_id h" h]
  by (simp add: start_writer_def Let_def emit_def create_timer_task_def)

lemma start_writer_not_empty: "m_presenceServices (start_writer h s) \<noteq> []"
  using start_writer_registered [of h s] by (auto simp add: umap_find_def)

lemma start_writer_preserves: "running_iff_registered (start_writer h s)"
  by (simp add: running_iff_registered_def start_writer_running start_writer_not_empty)

lemma stop_writer_preserves:
  "running_iff_registered s \<Longrightarrow> running_iff_registered (stop_writer k outcome s)"
  by (auto simp add: running_iff_registered_def stop_writer_def Let_def emit_def
      erase_service_def set_inactive_in_title_def split: option.splits call_outcome.splits)

lemma run_lifecycle:
  "list_all lifecycle_event es \<Longrightarrow> running_iff_registered s \<Longrightarrow>
   \<exists>s'. run d es s = Some s' \<and> running_iff_registered s'"
proof (induction es arbitrary: s)
  case Nil
  then show ?case by simp
next
  case (Cons e es)
  then show ?case
    by (cases e) (simp_all add: start_writer_preserves stop_writer_preserves)
qed

text \<open>
  C9. From the writer as constructed, every sequence of registrations and removals ends
  in a state where \<^verbatim>\<open>m_writerInProgress\<close> is true exactly when \<^verbatim>\<open>m_presenceServices\<close> is
  not empty, and each single \<^verbatim>\<open>start_writer\<close> and \<^verbatim>\<open>stop_writer\<close> keeps that equivalence.
\<close>

theorem running_iff_registered_invariant:
  "(list_all lifecycle_event es \<longrightarrow>
      (\<exists>s'. run d es (new_presence_writer timerComplete) = Some s' \<and> running_iff_registered s'))
   \<and> (running_iff_registered s \<longrightarrow>
        running_iff_registered (start_writer h s)
        \<and> running_iff_registered (stop_writer k outcome s))"
proof -
  have "running_iff_registered (new_presence_writer timerComplete)"
    by (simp add: running_iff_registered_def new_presence_writer_def)
  then show ?thesis
    using run_lifecycle start_writer_preserves stop_writer_preserves by blast
qed

theorem running_iff_registered_invariant_witness:
  "list_all lifecycle_event
     [Start_writer \<lparr>xbox_user_id = ''A'', address = 1\<rparr>,
      Start_writer \<lparr>xbox_user_id = ''B'', address = 2\<rparr>,
      Stop_writer ''A'' Throws, Stop_writer ''B'' Returns]
   \<and> (\<exists>s'. run 5 [Start_writer \<lparr>xbox_user_id = ''A'', address = 1\<rparr>,
      Start_writer \<lparr>xbox_user_id = ''B'', address = 2\<rparr>,
      Stop_writer ''A'' Throws, Stop_writer ''B'' Returns] (new_presence_writer False) = Some s'
          \<and> running_iff_registered s')
   \<and> running_iff_registered (new_presence_writer False)
   \<and> running_iff_registered
        (start_writer \<lparr>xbox_user_id = ''A'', address = 1\<rparr> (new_presence_writer False))
   \<and> running_iff_registered (stop_writer ''A'' Returns (new_presence_writer False))"
proof -
  have inv: "running_iff_registered (new_presence_writer False)"
    by (simp add: running_iff_registered_def new_presence_writer_def)
  have ev: "list_all lifecycle_event
     [Start_writer \<lparr>xbox_user_id = ''A'', address = 1\<rparr>,
      Start_writer \<lparr>xbox_user_id = ''B'', address = 2\<rparr>,
      Stop_writer ''A'' Throws, Stop_writer ''B'' Returns]"
    by simp
  from running_iff_registered_invariant [THEN conjunct1, rule_format, OF ev]
    running_iff_registered_invariant [THEN conjunct2, rule_format, OF inv]
    inv ev
  show ?thesis by blast
qed

subsection \<open>Registering twice\<close>

lemma start_writer_services:
  "m_presenceServices (start_writer h s)
     = umap_insert (xbox_user_id h, h) (m_presenceServices s)"
  by (simp add: start_writer_def Let_def emit_def create_timer_task_def umap_insert_def)

lemma entries_absent: "k \<notin> fst ` set m \<Longrightarrow> entries k m = 0"
  by (induction m) (auto simp add: entries_def)

lemma entries_present:
  "distinct (map fst m) \<Longrightarrow> k \<in> fst ` set m \<Longrightarrow> entries k m = 1"
proof (induction m)
  case Nil
  then show ?case by simp
next
  case (Cons p m)
  show ?case
  proof (cases "fst p = k")
    case True
    with Cons.prems have "k \<notin> fst ` set m" by auto
    then have "entries k m = 0" by (rule entries_absent)
    with True show ?thesis by (simp add: entries_def)
  next
    case False
    with Cons have "entries k m = 1" by auto
    with False show ?thesis by (simp add: entries_def)
  qed
qed

lemma entries_insert:
  "distinct (map fst m) \<Longrightarrow> entries k (umap_insert (k, v) m) = 1"
proof (cases "k \<in> fst ` set m")
  case True
  assume "distinct (map fst m)"
  with True show ?thesis
    by (simp add: umap_insert_def umap_find_None entries_present)
next
  case False
  then have "entries k m = 0" by (rule entries_absent)
  with False show ?thesis
    by (simp add: umap_insert_def umap_find_None entries_def)
qed

lemma distinct_umap_insert:
  "distinct (map fst m) \<Longrightarrow> distinct (map fst (umap_insert p m))"
  by (auto simp add: umap_insert_def umap_find_None)

lemma set_umap_erase: "set (umap_erase k m) \<subseteq> set m"
  by (induction m) auto

lemma distinct_umap_erase:
  "distinct (map fst m) \<Longrightarrow> distinct (map fst (umap_erase k m))"
proof (induction m)
  case Nil
  then show ?case by simp
next
  case (Cons p m)
  then show ?case using set_umap_erase [of k m] by auto
qed

lemma umap_find_erase_same:
  "distinct (map fst m) \<Longrightarrow> umap_find k (umap_erase k m) = None"
proof (induction m)
  case Nil
  then show ?case by (simp add: umap_find_def)
next
  case (Cons p m)
  then show ?case
    by (cases p) (auto simp add: umap_find_def map_of_eq_None_iff)
qed

lemma umap_find_erase_other:
  "k' \<noteq> k \<Longrightarrow> umap_find k' (umap_erase k m) = umap_find k' m"
  by (induction m) (auto simp add: umap_find_def)

lemma start_writer_present:
  "m_writerInProgress s \<Longrightarrow> umap_find (xbox_user_id h) (m_presenceServices s) = Some v \<Longrightarrow>
   start_writer h s = emit (LOG_INFO ''Presence service for the user already exsit, return'') s"
  by (simp add: start_writer_def Let_def)

text \<open>
  C7. When \<^verbatim>\<open>start_writer\<close> is called twice for the same user id, the map holds one entry
  for that user afterwards, and the second call leaves the map, and every other member,
  as the first call left it: it takes the branch of the user that is already present,
  whose only effect is its log line (the function returns nothing, the line is how the
  branch shows).  The keys of the map are distinct, as they are in every state that the
  writer reaches.
\<close>

theorem start_writer_twice:
  assumes "distinct (map fst (m_presenceServices s))"
    and "xbox_user_id h' = xbox_user_id h"
  shows "entries (xbox_user_id h) (m_presenceServices (start_writer h' (start_writer h s))) = 1
    \<and> m_presenceServices (start_writer h' (start_writer h s))
        = m_presenceServices (start_writer h s)
    \<and> start_writer h' (start_writer h s)
        = emit (LOG_INFO ''Presence service for the user already exsit, return'')
            (start_writer h s)"
proof -
  let ?s1 = "start_writer h s"
  obtain v where found: "umap_find (xbox_user_id h') (m_presenceServices ?s1) = Some v"
    using start_writer_registered [of h s] assms(2) by auto
  have running: "m_writerInProgress ?s1" by (rule start_writer_running)
  have second: "start_writer h' ?s1
      = emit (LOG_INFO ''Presence service for the user already exsit, return'') ?s1"
    using running found by (rule start_writer_present)
  have "entries (xbox_user_id h) (m_presenceServices ?s1) = 1"
    using assms(1) by (simp add: start_writer_services entries_insert)
  with second show ?thesis by (simp add: emit_def)
qed

theorem start_writer_twice_witness:
  "distinct (map fst (m_presenceServices (new_presence_writer False)))
   \<and> entries ''A'' (m_presenceServices
        (start_writer \<lparr>xbox_user_id = ''A'', address = 2\<rparr>
          (start_writer \<lparr>xbox_user_id = ''A'', address = 1\<rparr> (new_presence_writer False)))) = 1
   \<and> m_presenceServices
        (start_writer \<lparr>xbox_user_id = ''A'', address = 2\<rparr>
          (start_writer \<lparr>xbox_user_id = ''A'', address = 1\<rparr> (new_presence_writer False)))
       = [(''A'', \<lparr>xbox_user_id = ''A'', address = 1\<rparr>)]"
proof -
  have d: "distinct (map fst (m_presenceServices (new_presence_writer False)))"
    by (simp add: new_presence_writer_def)
  have first: "m_presenceServices
      (start_writer \<lparr>xbox_user_id = ''A'', address = 1\<rparr> (new_presence_writer False))
      = [(''A'', \<lparr>xbox_user_id = ''A'', address = 1\<rparr>)]"
    by (simp add: start_writer_services umap_insert_def umap_find_def new_presence_writer_def)
  note twice = start_writer_twice [OF d, of "\<lparr>xbox_user_id = ''A'', address = 2\<rparr>"
      "\<lparr>xbox_user_id = ''A'', address = 1\<rparr>"]
  have "entries ''A'' (m_presenceServices
        (start_writer \<lparr>xbox_user_id = ''A'', address = 2\<rparr>
          (start_writer \<lparr>xbox_user_id = ''A'', address = 1\<rparr> (new_presence_writer False)))) = 1"
    using twice [THEN conjunct1] by simp
  moreover have "m_presenceServices
        (start_writer \<lparr>xbox_user_id = ''A'', address = 2\<rparr>
          (start_writer \<lparr>xbox_user_id = ''A'', address = 1\<rparr> (new_presence_writer False)))
       = [(''A'', \<lparr>xbox_user_id = ''A'', address = 1\<rparr>)]"
    using twice [THEN conjunct2, THEN conjunct1] first by simp
  ultimately show ?thesis using d by simp
qed

subsection \<open>Removing a user\<close>

lemma set_inactive_in_title_effects:
  "effects (set_inactive_in_title h outcome s)
     = effects s @ Set_presence h False #
         (case outcome of Returns \<Rightarrow> [] | Throws \<Rightarrow> [LOG_ERROR ''Set presence inactive fail''])"
  by (cases outcome) (simp_all add: set_inactive_in_title_def emit_def)

lemma set_inactive_in_title_services:
  "m_presenceServices (set_inactive_in_title h outcome s) = m_presenceServices s"
  by (cases outcome) (simp_all add: set_inactive_in_title_def emit_def)

lemma stop_writer_found:
  assumes "m_writerInProgress s" and "umap_find k (m_presenceServices s) = Some h"
  shows "m_presenceServices (stop_writer k outcome s) = umap_erase k (m_presenceServices s)"
    and "effects (stop_writer k outcome s)
           = effects (set_inactive_in_title h outcome s) @ [Stop_timer]"
  using assms
  by (simp_all add: stop_writer_def Let_def erase_service_def emit_def
      set_inactive_in_title_services)

text \<open>
  C6. \<^verbatim>\<open>stop_writer\<close> for a user who is registered calls \<^verbatim>\<open>set_presence(false)\<close> on that
  user's service once and calls no other service.  The call is made while the entry is
  still in the map; the entry is erased afterwards, whether the call returned or threw.
  When it throws, the exception goes no further than the handler, which logs one line.
  The state is one that the writer can be in: it runs exactly when a user is registered
  and the keys of its map are distinct.
\<close>

theorem stop_writer_sets_inactive_once:
  assumes "running_iff_registered s"
    and "distinct (map fst (m_presenceServices s))"
    and "umap_find k (m_presenceServices s) = Some h"
  shows "presence_calls (stop_writer k outcome s) = presence_calls s @ [Set_presence h False]
    \<and> effects (stop_writer k outcome s)
        = effects s @ Set_presence h False #
            (case outcome of Returns \<Rightarrow> [] | Throws \<Rightarrow> [LOG_ERROR ''Set presence inactive fail''])
            @ [Stop_timer]
    \<and> umap_find k (m_presenceServices (set_inactive_in_title h outcome s)) = Some h
    \<and> m_presenceServices (stop_writer k outcome s)
        = umap_erase k (m_presenceServices (set_inactive_in_title h outcome s))
    \<and> umap_find k (m_presenceServices (stop_writer k outcome s)) = None"
proof -
  from assms(3) have "m_presenceServices s \<noteq> []"
    by (auto simp add: umap_find_def)
  with assms(1) have running: "m_writerInProgress s"
    by (simp add: running_iff_registered_def)
  note found = stop_writer_found [OF running assms(3), of outcome]
  have eff: "effects (stop_writer k outcome s)
        = effects s @ Set_presence h False #
            (case outcome of Returns \<Rightarrow> [] | Throws \<Rightarrow> [LOG_ERROR ''Set presence inactive fail''])
            @ [Stop_timer]"
    by (simp add: found(2) set_inactive_in_title_effects)
  have calls: "presence_calls (stop_writer k outcome s) = presence_calls s @ [Set_presence h False]"
    unfolding presence_calls_def eff by (cases outcome) simp_all
  have gone: "umap_find k (m_presenceServices (stop_writer k outcome s)) = None"
    by (simp add: found(1) umap_find_erase_same assms(2))
  show ?thesis
    using eff calls gone assms(3) found(1) by (simp add: set_inactive_in_title_services)
qed

theorem stop_writer_sets_inactive_once_witness:
  "running_iff_registered
     (start_writer \<lparr>xbox_user_id = ''A'', address = 1\<rparr> (new_presence_writer False))
   \<and> distinct (map fst (m_presenceServices
        (start_writer \<lparr>xbox_user_id = ''A'', address = 1\<rparr> (new_presence_writer False))))
   \<and> umap_find ''A'' (m_presenceServices
        (start_writer \<lparr>xbox_user_id = ''A'', address = 1\<rparr> (new_presence_writer False)))
       = Some \<lparr>xbox_user_id = ''A'', address = 1\<rparr>
   \<and> presence_calls (stop_writer ''A'' Throws
        (start_writer \<lparr>xbox_user_id = ''A'', address = 1\<rparr> (new_presence_writer False)))
       = [Set_presence \<lparr>xbox_user_id = ''A'', address = 1\<rparr> False]
   \<and> umap_find ''A'' (m_presenceServices (stop_writer ''A'' Throws
        (start_writer \<lparr>xbox_user_id = ''A'', address = 1\<rparr> (new_presence_writer False))))
       = None"
proof -
  let ?h = "\<lparr>xbox_user_id = ''A'', address = 1\<rparr>"
  let ?s = "start_writer ?h (new_presence_writer False)"
  have services: "m_presenceServices ?s = [(''A'', ?h)]"
    by (simp add: start_writer_services umap_insert_def umap_find_def new_presence_writer_def)
  have inv: "running_iff_registered ?s" by (rule start_writer_preserves)
  have keys: "distinct (map fst (m_presenceServices ?s))" unfolding services by simp
  have found: "umap_find ''A'' (m_presenceServices ?s) = Some ?h"
    unfolding services by (simp add: umap_find_def)
  have none: "presence_calls ?s = []"
    by (simp add: presence_calls_def start_writer_def Let_def emit_def create_timer_task_def
        umap_find_def new_presence_writer_def)
  note once = stop_writer_sets_inactive_once [OF inv keys found, of Throws]
  have "presence_calls (stop_writer ''A'' Throws ?s) = [Set_presence ?h False]"
    using once [THEN conjunct1] none by simp
  moreover have "umap_find ''A'' (m_presenceServices (stop_writer ''A'' Throws ?s)) = None"
    using once [THEN conjunct2, THEN conjunct2, THEN conjunct2, THEN conjunct2] .
  ultimately show ?thesis using inv keys found by simp
qed

subsection \<open>The countdown of a writer that starts\<close>







subsection \<open>The timer over registrations and removals\<close>

lemma stop_writer_timer:
  assumes "m_writerInProgress s"
  shows "m_timerComplete (stop_writer k outcome s)"
    and "timer_stops (stop_writer k outcome s) = timer_stops s + 1"
  using assms
  by (auto simp add: stop_writer_def Let_def emit_def erase_service_def timer_stops_def
      set_inactive_in_title_def split: option.splits call_outcome.splits)

text \<open>
  C2. The code at the input that the claim is about.  Users A and B are registered and
  the timer task has begun; then A is removed.  B is still registered and the writer
  still runs, yet \<^verbatim>\<open>stop_writer\<close> has set \<^verbatim>\<open>m_timerComplete\<close>: the loop of the timer leaves
  at its next wake and no timer task is left, and a later registration creates none
  because the writer counts as running.  Over the four steps register A, register B,
  remove A, remove B the timer is created once and stopped twice.
\<close>

theorem stop_writer_stops_timer_with_user_left:
  "(\<exists>s. run d [Start_writer \<lparr>xbox_user_id = ''A'', address = 1\<rparr>,
              Start_writer \<lparr>xbox_user_id = ''B'', address = 2\<rparr>,
              Timer_task_begins,
              Stop_writer ''A'' Returns] (new_presence_writer False) = Some s
        \<and> m_presenceServices s = [(''B'', \<lparr>xbox_user_id = ''B'', address = 2\<rparr>)]
        \<and> m_writerInProgress s \<and> m_timerComplete s \<and> timer_stops s = 1
        \<and> timer_loops (timer_wakes s) = 0 \<and> timer_tasks (timer_wakes s) = 0
        \<and> timer_tasks (start_writer \<lparr>xbox_user_id = ''C'', address = 3\<rparr> (timer_wakes s)) = 0)
   \<and> (\<exists>s. run d [Start_writer \<lparr>xbox_user_id = ''A'', address = 1\<rparr>,
              Start_writer \<lparr>xbox_user_id = ''B'', address = 2\<rparr>,
              Stop_writer ''A'' Returns,
              Stop_writer ''B'' Returns] (new_presence_writer False) = Some s
        \<and> timer_starts s = 1 \<and> timer_stops s = 2)"
  by (simp add: start_writer_def stop_writer_def timer_task_begins_def timer_wakes_def
      new_presence_writer_def Let_def emit_def create_timer_task_def erase_service_def
      set_inactive_in_title_def umap_find_def umap_insert_def timer_stops_def timer_starts_def)

subsection \<open>The order inside the continuation\<close>

text \<open>
  C4 as stated fails on the code.  A heartbeat is in progress with the countdown at minus
  one, and the continuation receives one successful result with an interval of seven.
  After its first statement the flag is clear while the countdown is still minus one.
\<close>

theorem flag_cleared_after_delay_counterexample:
  "\<not> flag_cleared_after_delay 5 [\<lparr>err = 0, err_message = [], payload = 7\<rparr>]
       ((new_presence_writer False)\<lparr>m_isCallInProgress := True, m_heartBeatDelayInMins := - 1\<rparr>)"
  by (simp add: flag_cleared_after_delay_def continuation_states_def continuation_store_def
      continuation_log_def continuation_delay_def emit_def new_presence_writer_def)

text \<open>
  C4, amended.  The continuation clears the flag first, with the countdown untouched, and
  sets the countdown afterwards; the flag is clear in every state it passes through.  When
  it has run, the flag is clear and the countdown is the interval of the last result it
  was given, or the default when that result is an error.
\<close>

theorem continuation_clears_flag_then_sets_delay:
  assumes "results \<noteq> []"
  shows "continuation d results s = Some (last (continuation_states d results s))
    \<and> \<not> m_isCallInProgress (hd (continuation_states d results s))
    \<and> m_heartBeatDelayInMins (hd (continuation_states d results s)) = m_heartBeatDelayInMins s
    \<and> list_all (\<lambda>s'. \<not> m_isCallInProgress s') (continuation_states d results s)
    \<and> m_heartBeatDelayInMins (last (continuation_states d results s))
        = (if err (last results) = 0 then uint (payload (last results)) else d)"
  using assms
  by (simp add: continuation_def continuation_states_def continuation_store_def
      continuation_log_def continuation_delay_def emit_def)

theorem continuation_clears_flag_then_sets_delay_witness:
  "[\<lparr>err = 0, err_message = [], payload = 7\<rparr>] \<noteq> []
   \<and> \<not> m_isCallInProgress (hd (continuation_states 5 [\<lparr>err = 0, err_message = [], payload = 7\<rparr>]
        ((new_presence_writer False)\<lparr>m_isCallInProgress := True, m_heartBeatDelayInMins := - 1\<rparr>)))
   \<and> m_heartBeatDelayInMins (hd (continuation_states 5 [\<lparr>err = 0, err_message = [], payload = 7\<rparr>]
        ((new_presence_writer False)\<lparr>m_isCallInProgress := True, m_heartBeatDelayInMins := - 1\<rparr>)))
       = - 1
   \<and> m_heartBeatDelayInMins (last (continuation_states 5 [\<lparr>err = 0, err_message = [], payload = 7\<rparr>]
        ((new_presence_writer False)\<lparr>m_isCallInProgress := True, m_heartBeatDelayInMins := - 1\<rparr>)))
       = 7"
proof -
  let ?r = "\<lparr>err = 0, err_message = [], payload = 7 :: 32 word\<rparr>"
  let ?s = "(new_presence_writer False)\<lparr>m_isCallInProgress := True, m_heartBeatDelayInMins := - 1\<rparr>"
  have ne: "[?r] \<noteq> []" by simp
  note c = continuation_clears_flag_then_sets_delay [OF ne, of 5 ?s]
  have "\<not> m_isCallInProgress (hd (continuation_states 5 [?r] ?s))"
    using c [THEN conjunct2, THEN conjunct1] .
  moreover have "m_heartBeatDelayInMins (hd (continuation_states 5 [?r] ?s)) = - 1"
    using c [THEN conjunct2, THEN conjunct2, THEN conjunct1] by simp
  moreover have "m_heartBeatDelayInMins (last (continuation_states 5 [?r] ?s)) = 7"
    using c [THEN conjunct2, THEN conjunct2, THEN conjunct2, THEN conjunct2] by simp
  ultimately show ?thesis by simp
qed

subsection \<open>One heartbeat at a time\<close>

lemma set_active_in_title_skips:
  "m_isCallInProgress s \<Longrightarrow>
   set_active_in_title s = emit (LOG_INFO ''Writting in progress, skip presence writing.'') s"
  by (simp add: set_active_in_title_def)

lemma set_active_in_title_takes_flag: "m_isCallInProgress (set_active_in_title s)"
  by (simp add: set_active_in_title_def write_loop_members emit_def)

text \<open>
  C1. The code at two registered users.  The first wake of the timer begins a heartbeat
  with the write tasks 0 (user A) and 1 (user B).  Task 0 completes with an interval of
  one minute: the continuation registered in the first round of the loop, which waits for
  task 0 alone, runs and clears the flag while task 1 has not completed.  The next wake
  lowers the countdown to zero and begins a second heartbeat (tasks 2 and 3): the writes
  of two heartbeats are outstanding together, and the continuation over the whole first
  snapshot still waits.
\<close>

theorem second_heartbeat_begins_during_first:
  "(\<exists>s. run d [Start_writer \<lparr>xbox_user_id = ''A'', address = 1\<rparr>,
              Start_writer \<lparr>xbox_user_id = ''B'', address = 2\<rparr>,
              Timer_task_begins, Timer_wakes,
              Write_completes 0 \<lparr>err = 0, err_message = [], payload = 1\<rparr>,
              Continuation_runs 0]
          (new_presence_writer False) = Some s
        \<and> \<not> m_isCallInProgress s \<and> outstanding s = [1] \<and> joins s = [[0, 1]]
        \<and> heartbeats_begun s = 1)
   \<and> (\<exists>s. run d [Start_writer \<lparr>xbox_user_id = ''A'', address = 1\<rparr>,
              Start_writer \<lparr>xbox_user_id = ''B'', address = 2\<rparr>,
              Timer_task_begins, Timer_wakes,
              Write_completes 0 \<lparr>err = 0, err_message = [], payload = 1\<rparr>,
              Continuation_runs 0,
              Timer_wakes]
          (new_presence_writer False) = Some s
        \<and> m_isCallInProgress s \<and> outstanding s = [1, 2, 3]
        \<and> joins s = [[0, 1], [2], [2, 3]]
        \<and> heartbeats_begun s = 2)"
  by (simp add: start_writer_def timer_task_begins_def timer_wakes_def handle_timer_trigger_def
      set_active_in_title_def write_completes_def continuation_runs_def task_pending_def
      set_result_def continuation_def continuation_store_def
      continuation_log_def continuation_delay_def join_ready_def task_done_def task_result_def
      new_presence_writer_def Let_def emit_def create_timer_task_def umap_find_def
      umap_insert_def outstanding_def heartbeats_begun_def nth_append)

subsection \<open>A heartbeat on an empty map\<close>

lemma write_completes_no_joins:
  assumes "joins s = []"
  shows "joins (write_completes t r s) = []
    \<and> scheduled (write_completes t r s) = scheduled s
    \<and> m_isCallInProgress (write_completes t r s) = m_isCallInProgress s"
  using assms by (simp add: write_completes_def Let_def set_result_def)

lemma handle_timer_trigger_in_progress:
  assumes "m_isCallInProgress s"
  shows "m_isCallInProgress (handle_timer_trigger s)
    \<and> joins (handle_timer_trigger s) = joins s
    \<and> scheduled (handle_timer_trigger s) = scheduled s"
  using assms
  by (simp add: handle_timer_trigger_def Let_def emit_def set_active_in_title_def)

lemma step_stuck:
  assumes "m_isCallInProgress s" and "joins s = []" and "scheduled s = []"
  shows "\<exists>s'. step d e s = Some s' \<and> m_isCallInProgress s' \<and> joins s' = []
    \<and> scheduled s' = []"
proof (cases e)
  case (Start_writer h)
  with assms show ?thesis
    by (simp add: start_writer_def Let_def emit_def create_timer_task_def)
next
  case (Stop_writer k outcome)
  with assms show ?thesis
    by (simp add: stop_writer_def Let_def emit_def erase_service_def set_inactive_in_title_def
        split: option.splits call_outcome.splits)
next
  case Timer_task_begins
  with assms show ?thesis by (simp add: timer_task_begins_def)
next
  case Timer_wakes
  with assms handle_timer_trigger_in_progress [OF assms(1)] show ?thesis
    by (simp add: timer_wakes_def)
next
  case (Write_completes t r)
  with assms write_completes_no_joins [OF assms(2), of t r] show ?thesis by simp
next
  case (Continuation_runs k)
  with assms show ?thesis by (simp add: continuation_runs_def)
qed

lemma run_stuck:
  "m_isCallInProgress s \<Longrightarrow> joins s = [] \<Longrightarrow> scheduled s = [] \<Longrightarrow>
   \<exists>s'. run d es s = Some s' \<and> m_isCallInProgress s' \<and> joins s' = [] \<and> scheduled s' = []"
proof (induction es arbitrary: s)
  case Nil
  then show ?case by simp
next
  case (Cons e es)
  from step_stuck [OF Cons.prems, of d e]
  obtain s1 where "step d e s = Some s1" "m_isCallInProgress s1" "joins s1 = []"
    "scheduled s1 = []" by blast
  with Cons.IH [of s1] show ?case by simp
qed

text \<open>
  C5. The code on an empty map.  User A is registered and removed again before the timer
  task created by the registration has begun; the task then begins (\<^verbatim>\<open>start_timer\<close> clears
  \<^verbatim>\<open>m_timerComplete\<close>) and wakes.  The wake lowers the countdown to minus one and enters
  \<^verbatim>\<open>set_active_in_title\<close>, which takes the flag and finds no service: the loop runs no
  round, so no continuation is registered.  The flag stays set whatever happens next.
\<close>

theorem heartbeat_on_empty_map_keeps_flag:
  "\<exists>s. run d [Start_writer \<lparr>xbox_user_id = ''A'', address = 1\<rparr>,
             Stop_writer ''A'' Returns,
             Timer_task_begins, Timer_wakes] (new_presence_writer timerComplete) = Some s
       \<and> m_isCallInProgress s \<and> heartbeats_begun s = 1
       \<and> m_presenceServices s = [] \<and> write_tasks s = [] \<and> joins s = []
       \<and> scheduled s = []
       \<and> (\<forall>es. \<exists>s'. run d es s = Some s' \<and> m_isCallInProgress s')"
proof -
  have "\<exists>s. run d [Start_writer \<lparr>xbox_user_id = ''A'', address = 1\<rparr>,
             Stop_writer ''A'' Returns,
             Timer_task_begins, Timer_wakes] (new_presence_writer timerComplete) = Some s
       \<and> m_isCallInProgress s \<and> heartbeats_begun s = 1
       \<and> m_presenceServices s = [] \<and> write_tasks s = [] \<and> joins s = []
       \<and> scheduled s = []"
    by (simp add: start_writer_def stop_writer_def timer_task_begins_def timer_wakes_def
        handle_timer_trigger_def set_active_in_title_def erase_service_def
        set_inactive_in_title_def new_presence_writer_def Let_def emit_def
        create_timer_task_def umap_find_def umap_insert_def heartbeats_begun_def)
  then obtain s where s: "run d [Start_writer \<lparr>xbox_user_id = ''A'', address = 1\<rparr>,
             Stop_writer ''A'' Returns,
             Timer_task_begins, Timer_wakes] (new_presence_writer timerComplete) = Some s"
       "m_isCallInProgress s" "heartbeats_begun s = 1"
       "m_presenceServices s = []" "write_tasks s = []" "joins s = []" "scheduled s = []"
    by blast
  have "\<forall>es. \<exists>s'. run d es s = Some s' \<and> m_isCallInProgress s'"
    using run_stuck [OF s(2) s(6) s(7)] by blast
  with s show ?thesis by blast
qed

subsection \<open>The countdown after a heartbeat\<close>

text \<open>
  One continuation: the flag is clear afterwards, and the countdown is the interval of the
  last result of its vector, or the default delay when that result is an error.
\<close>

lemma continuation_result:
  assumes "results \<noteq> []"
  shows "\<exists>s'. continuation d results s = Some s'
     \<and> write_tasks s' = write_tasks s \<and> joins s' = joins s
     \<and> \<not> m_isCallInProgress s'
     \<and> m_heartBeatDelayInMins s'
         = (if err (last results) = 0 then uint (payload (last results)) else d)"
  using assms
  by (simp add: continuation_def continuation_store_def continuation_log_def
      continuation_delay_def emit_def)


text \<open>
  C3. The code at two registered users, A before B in the iteration order of the map, so
  that the result of B's write is the last result of the heartbeat.  The heartbeat begins
  with the write tasks 0 (A) and 1 (B); the loop has registered two continuations, one
  over task 0 and one over tasks 0 and 1.

  First run: B's write completes with an interval of nine, then A's with an interval of
  three.  Both continuations are complete now and scheduled.  The one over both results
  runs and sets the countdown to nine; the one over A's result alone runs after it and
  sets the countdown to three.  Every write of the heartbeat has completed and every
  continuation has run: the countdown is three, the interval of A's result.  Had the two
  continuations run in the other order the countdown would be nine.

  Second run: A's write completes first.  Its continuation runs, clears the flag and sets
  the countdown to three while B's write has not completed.
\<close>

theorem heartbeat_delay_from_another_result:
  "(\<exists>s. run d [Start_writer \<lparr>xbox_user_id = ''A'', address = 1\<rparr>,
              Start_writer \<lparr>xbox_user_id = ''B'', address = 2\<rparr>,
              Timer_task_begins, Timer_wakes,
              Write_completes 1 \<lparr>err = 0, err_message = [], payload = 9\<rparr>,
              Write_completes 0 \<lparr>err = 0, err_message = [], payload = 3\<rparr>,
              Continuation_runs 1, Continuation_runs 0]
          (new_presence_writer False) = Some s
        \<and> map fst (m_presenceServices s) = [''A'', ''B'']
        \<and> map snd (write_tasks s)
            = [Some \<lparr>err = 0, err_message = [], payload = 3\<rparr>,
               Some \<lparr>err = 0, err_message = [], payload = 9\<rparr>]
        \<and> joins s = [] \<and> scheduled s = [] \<and> \<not> m_isCallInProgress s
        \<and> heartbeats_begun s = 1
        \<and> m_heartBeatDelayInMins s = 3)
   \<and> (\<exists>s. run d [Start_writer \<lparr>xbox_user_id = ''A'', address = 1\<rparr>,
              Start_writer \<lparr>xbox_user_id = ''B'', address = 2\<rparr>,
              Timer_task_begins, Timer_wakes,
              Write_completes 1 \<lparr>err = 0, err_message = [], payload = 9\<rparr>,
              Write_completes 0 \<lparr>err = 0, err_message = [], payload = 3\<rparr>,
              Continuation_runs 0, Continuation_runs 0]
          (new_presence_writer False) = Some s
        \<and> joins s = [] \<and> scheduled s = [] \<and> \<not> m_isCallInProgress s
        \<and> m_heartBeatDelayInMins s = 9)
   \<and> (\<exists>s. run d [Start_writer \<lparr>xbox_user_id = ''A'', address = 1\<rparr>,
              Start_writer \<lparr>xbox_user_id = ''B'', address = 2\<rparr>,
              Timer_task_begins, Timer_wakes,
              Write_completes 0 \<lparr>err = 0, err_message = [], payload = 3\<rparr>,
              Continuation_runs 0]
          (new_presence_writer False) = Some s
        \<and> outstanding s = [1] \<and> joins s = [[0, 1]] \<and> \<not> m_isCallInProgress s
        \<and> m_heartBeatDelayInMins s = 3)"
  by (simp add: start_writer_def timer_task_begins_def timer_wakes_def handle_timer_trigger_def
      set_active_in_title_def write_completes_def continuation_runs_def task_pending_def
      set_result_def continuation_def continuation_store_def
      continuation_log_def continuation_delay_def join_ready_def task_done_def task_result_def
      new_presence_writer_def Let_def emit_def create_timer_task_def umap_find_def
      umap_insert_def outstanding_def heartbeats_begun_def nth_append)

subsection \<open>The states that the writer reaches\<close>

lemma task_done_set_result:
  "task_done (set_result t r s) u = (task_done s u \<or> (u = t \<and> t < length (write_tasks s)))"
proof (cases "u = t")
  case True
  then show ?thesis by (auto simp add: task_done_def set_result_def)
next
  case False
  then show ?thesis by (simp add: task_done_def set_result_def)
qed

lemma task_pending_set_result:
  "task_pending (set_result t r s) u = (task_pending s u \<and> u \<noteq> t)"
proof (cases "u = t")
  case True
  then show ?thesis by (auto simp add: task_pending_def set_result_def)
next
  case False
  then show ?thesis by (simp add: task_pending_def set_result_def)
qed

lemma task_done_cong: "write_tasks a = write_tasks b \<Longrightarrow> task_done a = task_done b"
  by (rule ext) (simp add: task_done_def)

lemma join_ready_cong:
  "write_tasks a = write_tasks b \<Longrightarrow> join_ready a j = join_ready b j"
  using task_done_cong [of a b] by (simp add: join_ready_def)

lemma joins_waiting_cong:
  "write_tasks a = write_tasks b \<Longrightarrow> joins a = joins b \<Longrightarrow> joins_waiting a = joins_waiting b"
  using task_done_cong [of a b] by (simp add: joins_waiting_def join_ready_def)


text \<open>One completion: the result is stored and the continuations that are complete are
  scheduled.\<close>

lemma write_completes_step:
  assumes wf: "joins_waiting s" and sched: "scheduled_results s"
  shows "joins_waiting (write_completes t r s) \<and> scheduled_results (write_completes t r s)"
proof (cases "task_pending s t")
  case False
  with assms show ?thesis by (simp add: write_completes_def)
next
  case True
  let ?s1 = "set_result t r s"
  let ?s' = "write_completes t r s"
  have tasks: "write_tasks ?s' = write_tasks ?s1"
    using True by (simp add: write_completes_def Let_def)
  have js: "joins ?s' = filter (\<lambda>j. \<not> join_ready ?s1 j) (joins s)"
    using True by (simp add: write_completes_def Let_def set_result_def)
  have sch: "scheduled ?s'
      = scheduled s @ map (map (task_result ?s1)) (filter (join_ready ?s1) (joins s))"
    using True by (simp add: write_completes_def Let_def set_result_def)
  have len1: "length (write_tasks ?s1) = length (write_tasks s)" by (simp add: set_result_def)
  have "joins_waiting ?s'"
    unfolding joins_waiting_def js tasks
    using wf join_ready_cong [OF tasks]
    by (auto simp add: joins_waiting_def list_all_iff len1)
  moreover have "scheduled_results ?s'"
    unfolding scheduled_results_def sch
    using wf sched by (auto simp add: joins_waiting_def scheduled_results_def list_all_iff)
  ultimately show ?thesis by simp
qed

text \<open>A scheduled continuation runs: it has a result to read.\<close>

lemma continuation_runs_step:
  assumes sched: "scheduled_results s"
  shows "\<exists>s'. continuation_runs d k s = Some s'
    \<and> write_tasks s' = write_tasks s \<and> joins s' = joins s
    \<and> m_presenceServices s' = m_presenceServices s
    \<and> m_writerInProgress s' = m_writerInProgress s
    \<and> scheduled_results s'"
proof (cases "k < length (scheduled s)")
  case False
  with sched show ?thesis by (simp add: continuation_runs_def)
next
  case True
  let ?s0 = "s\<lparr>scheduled := take k (scheduled s) @ drop (Suc k) (scheduled s)\<rparr>"
  from sched True have "scheduled s ! k \<noteq> []"
    by (auto simp add: scheduled_results_def list_all_iff)
  then have run: "continuation d (scheduled s ! k) ?s0
      = Some (continuation_delay d (last (scheduled s ! k))
                (continuation_log (continuation_store ?s0)))"
    by (simp add: continuation_def)
  have rest: "list_all (\<lambda>results. results \<noteq> [])
      (take k (scheduled s) @ drop (Suc k) (scheduled s))"
    using sched
    by (auto simp add: scheduled_results_def list_all_iff dest: in_set_takeD in_set_dropD)
  show ?thesis
    using True run rest
    by (simp add: continuation_runs_def scheduled_results_def continuation_delay_def
        continuation_log_def continuation_store_def emit_def)
qed

text \<open>What the loop of \<^verbatim>\<open>set_active_in_title\<close> leaves behind.\<close>

lemma write_loop_tasks:
  "write_tasks (write_loop ps wt s) = write_tasks s @ map (\<lambda>p. (snd p, None)) ps"
  by (induction ps arbitrary: wt s) (simp_all add: emit_def Let_def)

lemma write_loop_joins:
  "joins (write_loop ps wt s)
     = joins s @ map (\<lambda>i. wt @ [length (write_tasks s)..<length (write_tasks s) + Suc i])
                  [0..<length ps]"
proof (induction ps arbitrary: wt s)
  case Nil
  then show ?case by simp
next
  case (Cons p ps)
  let ?n = "length (write_tasks s)"
  let ?s2 = "(emit (Set_presence_helper (snd p) True) s)
               \<lparr>write_tasks := write_tasks s @ [(snd p, None)],
                joins := joins s @ [wt @ [?n]]\<rparr>"
  have loop: "write_loop (p # ps) wt s = write_loop ps (wt @ [?n]) ?s2"
    by (simp add: Let_def emit_def)
  have shift: "(wt @ [?n]) @ [Suc ?n..<Suc ?n + Suc i] = wt @ [?n..<?n + Suc (Suc i)]" for i
    by (simp add: upt_conv_Cons del: upt_Suc)
  have "joins (write_loop ps (wt @ [?n]) ?s2)
      = joins ?s2 @ map (\<lambda>i. (wt @ [?n]) @ [Suc ?n..<Suc ?n + Suc i]) [0..<length ps]"
    using Cons.IH [of "wt @ [?n]" ?s2] by (simp add: emit_def)
  also have "\<dots> = joins s @ (wt @ [?n]) #
      map (\<lambda>i. wt @ [?n..<?n + Suc (Suc i)]) [0..<length ps]"
    unfolding shift by (simp add: emit_def)
  also have "\<dots> = joins s @ map (\<lambda>i. wt @ [?n..<?n + Suc i]) [0..<Suc (length ps)]"
  proof -
    have "[?n..<Suc ?n] = [?n]" by simp
    then show ?thesis by (simp add: map_upt_Suc del: upt_Suc)
  qed
  also have "\<dots> = joins s @ map (\<lambda>i. wt @ [?n..<?n + Suc i]) [0..<length (p # ps)]"
    by simp
  finally show ?case unfolding loop by simp
qed

lemma set_active_in_title_begins:
  assumes "\<not> m_isCallInProgress s"
  shows "write_tasks (set_active_in_title s)
           = write_tasks s @ map (\<lambda>p. (snd p, None)) (m_presenceServices s)"
    and "joins (set_active_in_title s)
           = joins s @ map (\<lambda>i. [length (write_tasks s)..<length (write_tasks s) + Suc i])
                        [0..<length (m_presenceServices s)]"
  using assms
  by (simp_all add: set_active_in_title_def write_loop_tasks write_loop_joins emit_def)

lemma set_active_in_title_joins_waiting:
  assumes wf: "joins_waiting s"
  shows "joins_waiting (set_active_in_title s)"
proof (cases "m_isCallInProgress s")
  case True
  have "joins_waiting (set_active_in_title s) = joins_waiting s"
    using True by (intro joins_waiting_cong) (simp_all add: set_active_in_title_skips emit_def)
  with wf show ?thesis by simp
next
  case False
  let ?s1 = "set_active_in_title s"
  let ?n = "length (write_tasks s)"
  let ?m = "length (m_presenceServices s)"
  note begins = set_active_in_title_begins [OF False]
  have len: "length (write_tasks ?s1) = ?n + ?m" by (simp add: begins(1))
  have old_task: "task_done ?s1 u = task_done s u" if "u < ?n" for u
    using that by (simp add: task_done_def begins(1) nth_append)
  have new_task: "\<not> task_done ?s1 u" if "?n \<le> u" for u
    using that by (auto simp add: task_done_def begins(1) nth_append)
  have old: "j \<noteq> [] \<and> (\<forall>t \<in> set j. t < length (write_tasks ?s1)) \<and> \<not> join_ready ?s1 j"
    if "j \<in> set (joins s)" for j
  proof -
    from wf that have j: "j \<noteq> []" "\<forall>t \<in> set j. t < ?n" "\<not> join_ready s j"
      by (auto simp add: joins_waiting_def list_all_iff)
    from j(2) have "join_ready ?s1 j = join_ready s j"
      by (auto simp add: join_ready_def list_all_iff old_task)
    with j len show ?thesis by auto
  qed
  have new: "j \<noteq> [] \<and> (\<forall>t \<in> set j. t < length (write_tasks ?s1)) \<and> \<not> join_ready ?s1 j"
    if "j \<in> set (map (\<lambda>i. [?n..<?n + Suc i]) [0..<?m])" for j
  proof -
    from that obtain i where i: "i < ?m" "j = [?n..<?n + Suc i]" by auto
    then have "?n \<in> set j" by auto
    with new_task [of ?n] have "\<not> join_ready ?s1 j"
      by (auto simp add: join_ready_def list_all_iff)
    with i len show ?thesis by auto
  qed
  have "j \<noteq> [] \<and> (\<forall>t \<in> set j. t < length (write_tasks ?s1)) \<and> \<not> join_ready ?s1 j"
    if "j \<in> set (joins ?s1)" for j
  proof -
    from that have "j \<in> set (joins s) \<or> j \<in> set (map (\<lambda>i. [?n..<?n + Suc i]) [0..<?m])"
      unfolding begins(2) by simp
    then show ?thesis using old new by blast
  qed
  then show ?thesis
    unfolding joins_waiting_def list_all_iff by blast
qed

lemma write_loop_scheduled: "scheduled (write_loop ps wt s) = scheduled s"
  by (induction ps arbitrary: wt s) (simp_all add: emit_def Let_def)

lemma set_active_in_title_scheduled: "scheduled (set_active_in_title s) = scheduled s"
  by (simp add: set_active_in_title_def write_loop_scheduled emit_def)

lemma handle_timer_trigger_scheduled: "scheduled (handle_timer_trigger s) = scheduled s"
  by (simp add: handle_timer_trigger_def Let_def emit_def set_active_in_title_scheduled)

lemma scheduled_results_cong:
  "scheduled a = scheduled b \<Longrightarrow> scheduled_results a = scheduled_results b"
  by (simp add: scheduled_results_def)

text \<open>
  Every step keeps the two properties of the work in flight, and every step has a next
  state: no continuation is ever handed an empty vector.
\<close>

lemma step_work:
  assumes wf: "joins_waiting s" and sched: "scheduled_results s"
  shows "\<exists>s'. step d e s = Some s' \<and> joins_waiting s' \<and> scheduled_results s'"
proof (cases e)
  case (Start_writer h)
  have "joins_waiting (start_writer h s) = joins_waiting s"
    by (intro joins_waiting_cong)
      (simp_all add: start_writer_def Let_def emit_def create_timer_task_def)
  moreover have "scheduled_results (start_writer h s) = scheduled_results s"
    by (intro scheduled_results_cong)
      (simp add: start_writer_def Let_def emit_def create_timer_task_def)
  ultimately show ?thesis using assms Start_writer by simp
next
  case (Stop_writer k outcome)
  have "joins_waiting (stop_writer k outcome s) = joins_waiting s"
    by (intro joins_waiting_cong)
      (simp_all add: stop_writer_def Let_def emit_def erase_service_def
        set_inactive_in_title_def split: option.splits call_outcome.splits)
  moreover have "scheduled_results (stop_writer k outcome s) = scheduled_results s"
    by (intro scheduled_results_cong)
      (simp add: stop_writer_def Let_def emit_def erase_service_def
        set_inactive_in_title_def split: option.splits call_outcome.splits)
  ultimately show ?thesis using assms Stop_writer by simp
next
  case Timer_task_begins
  have "joins_waiting (timer_task_begins s) = joins_waiting s"
    by (intro joins_waiting_cong) (simp_all add: timer_task_begins_def)
  moreover have "scheduled_results (timer_task_begins s) = scheduled_results s"
    by (intro scheduled_results_cong) (simp add: timer_task_begins_def)
  ultimately show ?thesis using assms Timer_task_begins by simp
next
  case Timer_wakes
  let ?s2 = "(emit (LOG_INFO ''Start presence writer timer trigger'') s)
               \<lparr>m_heartBeatDelayInMins := m_heartBeatDelayInMins s - 1\<rparr>"
  have "joins_waiting ?s2 = joins_waiting s"
    by (intro joins_waiting_cong) (simp_all add: emit_def)
  with wf have s2: "joins_waiting ?s2" by simp
  then have "joins_waiting (set_active_in_title ?s2)"
    by (rule set_active_in_title_joins_waiting)
  with s2 have "joins_waiting (handle_timer_trigger s)"
    by (simp add: handle_timer_trigger_def Let_def emit_def)
  moreover have "joins_waiting (s\<lparr>timer_loops := timer_loops s - 1\<rparr>) = joins_waiting s"
    by (intro joins_waiting_cong) simp_all
  moreover have "scheduled_results (timer_wakes s) = scheduled_results s"
    by (intro scheduled_results_cong)
      (simp add: timer_wakes_def handle_timer_trigger_scheduled)
  ultimately show ?thesis using assms Timer_wakes by (simp add: timer_wakes_def)
next
  case (Write_completes t r)
  with write_completes_step [OF assms, of t r] show ?thesis by simp
next
  case (Continuation_runs k)
  from continuation_runs_step [OF sched, of d k]
  obtain s' where s': "continuation_runs d k s = Some s'" "write_tasks s' = write_tasks s"
    "joins s' = joins s" "scheduled_results s'" by blast
  from s'(2,3) have "joins_waiting s' = joins_waiting s" by (rule joins_waiting_cong)
  with wf s' Continuation_runs show ?thesis by simp
qed

lemma step_services:
  assumes "step d e s = Some s'" and "scheduled_results s"
    and "\<And>h. e \<noteq> Start_writer h" and "\<And>k outcome. e \<noteq> Stop_writer k outcome"
  shows "m_presenceServices s' = m_presenceServices s
    \<and> m_writerInProgress s' = m_writerInProgress s"
proof (cases e)
  case (Start_writer h)
  with assms(3) [of h] show ?thesis by simp
next
  case (Stop_writer k outcome)
  with assms(4) [of k outcome] show ?thesis by simp
next
  case Timer_task_begins
  with assms(1) show ?thesis by (auto simp add: timer_task_begins_def split: if_splits)
next
  case Timer_wakes
  with assms(1) show ?thesis
    by (auto simp add: timer_wakes_def handle_timer_trigger_def Let_def emit_def
        set_active_in_title_def write_loop_members split: if_splits)
next
  case (Write_completes t r)
  with assms(1) show ?thesis
    by (auto simp add: write_completes_def Let_def set_result_def split: if_splits)
next
  case (Continuation_runs k)
  with assms(1) continuation_runs_step [OF assms(2), of d k] show ?thesis by auto
qed

text \<open>
  Whatever happens to the writer after its construction, it runs exactly when a service is
  registered, the keys of its map are distinct, every registered \<^verbatim>\<open>when_all\<close> still
  waits for a task, and every scheduled continuation has a result to read.
\<close>

lemma step_reachable:
  assumes "running_iff_registered s" and "distinct (map fst (m_presenceServices s))"
    and "joins_waiting s" and "scheduled_results s"
  shows "\<exists>s'. step d e s = Some s' \<and> running_iff_registered s'
    \<and> distinct (map fst (m_presenceServices s')) \<and> joins_waiting s' \<and> scheduled_results s'"
proof -
  from step_work [OF assms(3,4), of d e]
  obtain s' where s': "step d e s = Some s'" "joins_waiting s'" "scheduled_results s'"
    by blast
  have "running_iff_registered s' \<and> distinct (map fst (m_presenceServices s'))"
  proof (cases e)
    case (Start_writer h)
    with s'(1) assms(2) show ?thesis
      by (auto simp add: start_writer_preserves start_writer_services distinct_umap_insert)
  next
    case (Stop_writer k outcome)
    have "m_presenceServices (stop_writer k outcome s) = m_presenceServices s
      \<or> m_presenceServices (stop_writer k outcome s) = umap_erase k (m_presenceServices s)"
      by (simp add: stop_writer_def Let_def emit_def erase_service_def
          set_inactive_in_title_services split: option.splits)
    with Stop_writer s'(1) assms(1,2) show ?thesis
      by (auto simp add: stop_writer_preserves distinct_umap_erase)
  next
    case Timer_task_begins
    with step_services [OF s'(1) assms(4)] assms(1,2) show ?thesis
      by (simp add: running_iff_registered_def)
  next
    case Timer_wakes
    with step_services [OF s'(1) assms(4)] assms(1,2) show ?thesis
      by (simp add: running_iff_registered_def)
  next
    case (Write_completes t r)
    with step_services [OF s'(1) assms(4)] assms(1,2) show ?thesis
      by (simp add: running_iff_registered_def)
  next
    case (Continuation_runs k)
    with step_services [OF s'(1) assms(4)] assms(1,2) show ?thesis
      by (simp add: running_iff_registered_def)
  qed
  with s' show ?thesis by blast
qed

lemma run_reachable:
  "running_iff_registered s \<Longrightarrow> distinct (map fst (m_presenceServices s)) \<Longrightarrow>
   joins_waiting s \<Longrightarrow> scheduled_results s \<Longrightarrow>
   \<exists>s'. run d es s = Some s' \<and> running_iff_registered s'
     \<and> distinct (map fst (m_presenceServices s')) \<and> joins_waiting s' \<and> scheduled_results s'"
proof (induction es arbitrary: s)
  case Nil
  then show ?case by simp
next
  case (Cons e es)
  from step_reachable [OF Cons.prems, of d e]
  obtain s1 where "step d e s = Some s1" "running_iff_registered s1"
    "distinct (map fst (m_presenceServices s1))" "joins_waiting s1" "scheduled_results s1"
    by blast
  with Cons.IH [of s1] show ?case by simp
qed

lemma reachable_from_new:
  "\<exists>s'. run d es (new_presence_writer timerComplete) = Some s' \<and> running_iff_registered s'
     \<and> distinct (map fst (m_presenceServices s')) \<and> joins_waiting s' \<and> scheduled_results s'"
proof (rule run_reachable)
  show "running_iff_registered (new_presence_writer timerComplete)"
    by (simp add: running_iff_registered_def new_presence_writer_def)
  show "distinct (map fst (m_presenceServices (new_presence_writer timerComplete)))"
    by (simp add: new_presence_writer_def)
  show "joins_waiting (new_presence_writer timerComplete)"
    by (simp add: joins_waiting_def new_presence_writer_def)
  show "scheduled_results (new_presence_writer timerComplete)"
    by (simp add: scheduled_results_def new_presence_writer_def)
qed

end
